theory Spec2Isabelle
  imports Main "HOL-Library.Word" "HOL-Library.List_Lexorder" "HOL-Library.Char_ord"
begin

section \<open>Values and exceptions\<close>

text \<open>
  The values \<^verbatim>\<open>json.loads\<close> can return. A Python \<^verbatim>\<open>dict\<close> is an association list in
  insertion order (its keys are pairwise different); a float is its 64 bits. An instance
  of \<^verbatim>\<open>collections.MutableMapping\<close> is a \<open>JObj\<close>, everything else is not.
\<close>

datatype json =
    JNull
  | JBool bool
  | JInt int
  | JFloat "64 word"
  | JStr string
  | JArr "json list"
  | JObj "(string \<times> json) list"

text \<open>The exceptions that reach the handlers; none of the handlers catches any.\<close>

datatype exn =
    ClientError
  | NoSuchKey
  | JSONDecodeError
  | AttributeError
  | ValueError

section \<open>flatten\<close>

text \<open>
  \<^verbatim>\<open>isinstance(v, collections.MutableMapping)\<close>, on the Python versions in which
  \<^verbatim>\<open>collections\<close> still exports the class (up to 3.9).
\<close>

fun is_mapping :: "json \<Rightarrow> bool" where
  "is_mapping (JObj d) = True"
| "is_mapping v = False"

text \<open>
  \<^verbatim>\<open>d[k] = v\<close>: an existing key keeps its place and takes the new value, a new key goes
  to the end. \<^verbatim>\<open>dict(items)\<close> stores the pairs from left to right.
\<close>

fun setitem :: "(string \<times> 'v) list \<Rightarrow> string \<Rightarrow> 'v \<Rightarrow> (string \<times> 'v) list" where
  "setitem [] k v = [(k, v)]"
| "setitem ((k', v') # d) k v =
     (if k' = k then (k', v) # d else (k', v') # setitem d k v)"

definition dict :: "(string \<times> 'v) list \<Rightarrow> (string \<times> 'v) list" where
  "dict items = fold (\<lambda>(k, v) d. setitem d k v) items []"

text \<open>
  \<^verbatim>\<open>flatten(d, parent_key, sep)\<close>. \<open>flatten_items\<close> is the list \<^verbatim>\<open>items\<close> that the loop
  over \<^verbatim>\<open>d.items()\<close> builds; \<^verbatim>\<open>if parent_key\<close> tests for a non-empty string.
\<close>

fun flatten :: "(string \<times> json) list \<Rightarrow> string \<Rightarrow> string \<Rightarrow> (string \<times> json) list"
  and flatten_items :: "(string \<times> json) list \<Rightarrow> string \<Rightarrow> string \<Rightarrow> (string \<times> json) list"
where
  "flatten d parent_key sep = dict (flatten_items d parent_key sep)"
| "flatten_items [] parent_key sep = []"
| "flatten_items ((k, v) # d) parent_key sep =
     (let new_key = (if parent_key \<noteq> [] then parent_key @ sep @ k else k) in
        (case v of
           JObj d' \<Rightarrow> flatten d' new_key sep
         | _ \<Rightarrow> [(new_key, v)])
        @ flatten_items d parent_key sep)"

text \<open>
  What the specification says of flatten, written independently of the code: the leaves
  of a nested mapping with the path of keys that leads to each (a value that is not a
  mapping is a leaf, a sequence included), and \<^verbatim>\<open>sep.join(path)\<close>.
\<close>

fun leaf_paths :: "(string \<times> json) list \<Rightarrow> (string list \<times> json) list" where
  "leaf_paths [] = []"
| "leaf_paths ((k, v) # d) =
     (case v of
        JObj d' \<Rightarrow> map (\<lambda>(p, x). (k # p, x)) (leaf_paths d')
      | _ \<Rightarrow> [([k], v)])
     @ leaf_paths d"

fun join :: "string \<Rightarrow> string list \<Rightarrow> string" where
  "join sep [] = []"
| "join sep [k] = k"
| "join sep (k # ks) = k @ sep @ join sep ks"

definition fixture :: "(string \<times> json) list" where
  "fixture = [(''a'', JObj [(''b'', JInt 1), (''c'', JObj [(''d'', JInt 2)])])]"

section \<open>chunks\<close>

text \<open>
  \<^verbatim>\<open>range(i, stop, step)\<close> for a positive step. Python refuses a step of 0 with a
  ValueError; \<open>chunks\<close> raises it before the range is asked.
\<close>

function range_py :: "nat \<Rightarrow> nat \<Rightarrow> nat \<Rightarrow> nat list" where
  "range_py i stop step =
     (if step = 0 \<or> stop \<le> i then [] else i # range_py (i + step) stop step)"
  by pat_completeness auto
termination
  by (relation "measure (\<lambda>(i, stop, step). stop - i)") auto

declare range_py.simps [simp del]

text \<open>
  \<^verbatim>\<open>chunks(l, n)\<close>: the slices \<^verbatim>\<open>l[i:i + n]\<close> for \<^verbatim>\<open>i in range(0, len(l), n)\<close>, in the
  order the generator yields them.
\<close>

definition chunks :: "'a list \<Rightarrow> nat \<Rightarrow> exn + 'a list list" where
  "chunks l n =
     (if n = 0 then Inl ValueError
      else Inr (map (\<lambda>i. take n (drop i l)) (range_py 0 (length l) n)))"

section \<open>The queues\<close>

text \<open>
  A queue is outside the program. Call number \<open>n\<close> (counted from 0 within one
  invocation) with message \<open>m\<close> either raises (\<open>Some e\<close>) or returns; the handlers
  discard what it returns, so a response that reports failed entries is a return.
\<close>

type_synonym 'm queue = "nat \<Rightarrow> 'm \<Rightarrow> exn option"

section \<open>handler\_list\_pages\<close>

record event =
  bookmark :: "string option"
  all_pages_listed :: "string option"

text \<open>
  Modelled from the spec: the object store is not part of the repository. A bucket is
  the list of the keys of its objects, and \<^verbatim>\<open>bucket.objects.filter(MaxKeys=1000, Marker=m)\<close>
  iterates over all of them that lie strictly after \<open>m\<close> (over all of them without a
  marker) in the store's lexicographic order of the keys' bytes; that it fetches
  them 1000 at a time is invisible to the loop.
\<close>

definition objects_filter :: "string list \<Rightarrow> string option \<Rightarrow> string list" where
  "objects_filter bucket marker =
     filter (\<lambda>key. case marker of None \<Rightarrow> True | Some m \<Rightarrow> m < key) (sort (remdups bucket))"

text \<open>
  The local state of the handler: the event, the page buffer, and the bodies of the
  messages the pages queue has accepted (\<^verbatim>\<open>json.dumps\<close> of a list of keys stands for
  that list).
\<close>

record listing =
  ev :: event
  page :: "string list"
  sent :: "string list list"

datatype loop_exit = Exhausted | Yielded | Raised exn

text \<open>
  The \<^verbatim>\<open>for\<close> loop over the listed keys. \<open>remaining n\<close> is what the \<open>n\<close>-th call of
  \<^verbatim>\<open>context.get_remaining_time_in_millis()\<close> returns.
\<close>

fun list_loop ::
  "(nat \<Rightarrow> int) \<Rightarrow> string list queue \<Rightarrow> string list \<Rightarrow> nat \<Rightarrow> listing \<Rightarrow> listing \<times> loop_exit"
where
  "list_loop remaining q [] n s = (s, Exhausted)"
| "list_loop remaining q (key # objects) n s =
     (if remaining n < 30000 then (s, Yielded)
      else
        let buffer = page s @ [key] in
        if length buffer = 1000 then
          (case q (length (sent s)) buffer of
             Some e \<Rightarrow> (s\<lparr>page := buffer\<rparr>, Raised e)
           | None \<Rightarrow>
               list_loop remaining q objects (Suc n)
                 (s\<lparr>page := [], sent := sent s @ [buffer],
                    ev := (ev s)\<lparr>bookmark := Some key\<rparr>\<rparr>))
        else
          list_loop remaining q objects (Suc n)
            (s\<lparr>page := buffer, ev := (ev s)\<lparr>bookmark := Some key\<rparr>\<rparr>))"

text \<open>\<^verbatim>\<open>if bookmark:\<close> holds for a string that is present and not empty.\<close>

definition marker_of :: "event \<Rightarrow> string option" where
  "marker_of e = (case bookmark e of None \<Rightarrow> None | Some b \<Rightarrow> if b \<noteq> [] then Some b else None)"

text \<open>\<^verbatim>\<open>if page: queue.send_message(...)\<close>, after the loop.\<close>

definition send_remaining :: "string list queue \<Rightarrow> listing \<Rightarrow> listing \<times> exn option" where
  "send_remaining q s =
     (if page s \<noteq> [] then
        (case q (length (sent s)) (page s) of
           Some e \<Rightarrow> (s, Some e)
         | None \<Rightarrow> (s\<lparr>sent := sent s @ [page s]\<rparr>, None))
      else (s, None))"

text \<open>
  The handler returns its final local state (for the messages sent and the buffer)
  and either the exception that left it or the event it returned.
\<close>

definition handler_list_pages ::
  "string list \<Rightarrow> (nat \<Rightarrow> int) \<Rightarrow> string list queue \<Rightarrow> event \<Rightarrow> listing \<times> (exn + event)"
where
  "handler_list_pages bucket remaining q event0 =
     (let event = event0\<lparr>all_pages_listed := Some ''FALSE''\<rparr>;
          (s, out) = list_loop remaining q (objects_filter bucket (marker_of event)) 0
                       \<lparr>ev = event, page = [], sent = []\<rparr>
      in case out of
           Raised e \<Rightarrow> (s, Inl e)
         | Yielded \<Rightarrow> (s, Inr (ev s))
         | Exhausted \<Rightarrow>
             (case send_remaining q s of
                (s1, Some e) \<Rightarrow> (s1, Inl e)
              | (s1, None) \<Rightarrow>
                  (let s2 = s1\<lparr>ev := (ev s1)\<lparr>all_pages_listed := Some ''TRUE''\<rparr>\<rparr>
                   in (s2, Inr (ev s2)))))"

text \<open>The invocation returned an event that says \<^verbatim>\<open>all_pages_listed = 'TRUE'\<close>.\<close>

definition all_listed :: "exn + event \<Rightarrow> bool" where
  "all_listed r = (case r of Inl e \<Rightarrow> False | Inr e \<Rightarrow> all_pages_listed e = Some ''TRUE'')"

section \<open>handler\_split\_page\<close>

text \<open>One element of \<^verbatim>\<open>Entries\<close>; \<open>EntryId\<close> is its \<^verbatim>\<open>'Id'\<close>.\<close>

record entry =
  EntryId :: string
  MessageBody :: string

text \<open>
  The local state: the \<^verbatim>\<open>Entries\<close> of every \<^verbatim>\<open>send_messages\<close> call made so far (a call
  that raised included) and the number of \<^verbatim>\<open>uuid.uuid4()\<close> calls made so far.
\<close>

record splitting =
  calls :: "entry list list"
  ids :: nat

text \<open>
  The \<^verbatim>\<open>Entries\<close> of one batch, when \<open>n\<close> identifiers have been drawn before;
  \<open>uuid4 i\<close> is \<^verbatim>\<open>str(uuid.uuid4())\<close> of the \<open>i\<close>-th call.
\<close>

definition entries_of :: "(nat \<Rightarrow> string) \<Rightarrow> nat \<Rightarrow> string list \<Rightarrow> entry list" where
  "entries_of uuid4 n batch =
     map (\<lambda>(i, key). \<lparr>EntryId = uuid4 (n + i), MessageBody = key\<rparr>) (enumerate 0 batch)"

text \<open>The inner loop, over the batches of one page.\<close>

fun send_batches ::
  "(nat \<Rightarrow> string) \<Rightarrow> entry list queue \<Rightarrow> string list list \<Rightarrow> splitting \<Rightarrow> splitting \<times> (exn + unit)"
where
  "send_batches uuid4 q [] s = (s, Inr ())"
| "send_batches uuid4 q (batch # batches) s =
     (let entries = entries_of uuid4 (ids s) batch;
          s' = s\<lparr>calls := calls s @ [entries], ids := ids s + length batch\<rparr>
      in case q (length (calls s)) entries of
           Some e \<Rightarrow> (s', Inl e)
         | None \<Rightarrow> send_batches uuid4 q batches s')"

text \<open>
  The outer loop, over the bodies of \<^verbatim>\<open>event['Records']\<close>. \<open>loads\<close> is \<^verbatim>\<open>json.loads\<close> on
  the body of a pages-queue message: the list of keys, or the exception it raises.
\<close>

fun split_records ::
  "(string \<Rightarrow> exn + string list) \<Rightarrow> (nat \<Rightarrow> string) \<Rightarrow> entry list queue \<Rightarrow> string list \<Rightarrow>
     splitting \<Rightarrow> splitting \<times> (exn + unit)"
where
  "split_records loads uuid4 q [] s = (s, Inr ())"
| "split_records loads uuid4 q (body # records) s =
     (case loads body of
        Inl e \<Rightarrow> (s, Inl e)
      | Inr keys \<Rightarrow>
          (case chunks keys 10 of
             Inl e \<Rightarrow> (s, Inl e)
           | Inr batches \<Rightarrow>
               (case send_batches uuid4 q batches s of
                  (s', Inl e) \<Rightarrow> (s', Inl e)
                | (s', Inr u) \<Rightarrow> split_records loads uuid4 q records s')))"

definition handler_split_page ::
  "(string \<Rightarrow> exn + string list) \<Rightarrow> (nat \<Rightarrow> string) \<Rightarrow> entry list queue \<Rightarrow> string list \<Rightarrow>
     splitting \<times> (exn + unit)"
where
  "handler_split_page loads uuid4 q records =
     split_records loads uuid4 q records \<lparr>calls = [], ids = 0\<rparr>"

text \<open>
  The sub-sequences of the pages of one invocation, in the order in which the handler
  reaches them.
\<close>

definition batches_of :: "string list list \<Rightarrow> string list list" where
  "batches_of pages =
     concat (map (\<lambda>keys. case chunks keys 10 of Inl e \<Rightarrow> [] | Inr batches \<Rightarrow> batches) pages)"

text \<open>
  What the specification says of a page: its consecutive sub-sequences of at most 10
  keys, sub-sequence number \<open>j\<close> holding the keys at positions \<open>10 j\<close> to \<open>10 j + 9\<close>.
\<close>

definition sub_sequences :: "string list \<Rightarrow> string list list" where
  "sub_sequences keys = map (\<lambda>j. take 10 (drop (10 * j) keys)) [0..<(length keys + 9) div 10]"

section \<open>handler\_transform\<close>

text \<open>
  The two buckets, the metric data CloudWatch has accepted, and the number of requests
  made to the services so far. Request number \<open>n\<close> fails with \<open>e\<close> when
  \<open>fault n = Some e\<close>; a request that fails changes nothing but the count, and a put
  replaces the object under its key.
\<close>

record world =
  source :: "string \<rightharpoonup> string"
  destination :: "string \<rightharpoonup> string"
  metrics :: "(string \<times> nat) list list"
  requests :: nat

definition s3_get :: "(nat \<Rightarrow> exn option) \<Rightarrow> world \<Rightarrow> string \<Rightarrow> world \<times> (exn + string)" where
  "s3_get fault w key =
     (let w' = w\<lparr>requests := Suc (requests w)\<rparr> in
      case fault (requests w) of
        Some e \<Rightarrow> (w', Inl e)
      | None \<Rightarrow>
          (case source w key of
             None \<Rightarrow> (w', Inl NoSuchKey)
           | Some body \<Rightarrow> (w', Inr body)))"

definition s3_put ::
  "(nat \<Rightarrow> exn option) \<Rightarrow> world \<Rightarrow> string \<Rightarrow> string \<Rightarrow> world \<times> (exn + unit)" where
  "s3_put fault w key body =
     (let w' = w\<lparr>requests := Suc (requests w)\<rparr> in
      case fault (requests w) of
        Some e \<Rightarrow> (w', Inl e)
      | None \<Rightarrow> (w'\<lparr>destination := (destination w)(key \<mapsto> body)\<rparr>, Inr ()))"

definition put_metric_data ::
  "(nat \<Rightarrow> exn option) \<Rightarrow> world \<Rightarrow> (string \<times> nat) list \<Rightarrow> world \<times> (exn + unit)" where
  "put_metric_data fault w metric_data =
     (let w' = w\<lparr>requests := Suc (requests w)\<rparr> in
      case fault (requests w) of
        Some e \<Rightarrow> (w', Inl e)
      | None \<Rightarrow> (w'\<lparr>metrics := metrics w @ [metric_data]\<rparr>, Inr ()))"

text \<open>
  \<^verbatim>\<open>bytes.splitlines()\<close>: a line ends at LF, CR or CR LF, and no empty last line is
  reported. \<open>splitlines_from line rest\<close> has read \<open>line\<close> of the current line.
\<close>

fun splitlines_from :: "string \<Rightarrow> string \<Rightarrow> string list" where
  "splitlines_from line [] = (if line = [] then [] else [line])"
| "splitlines_from line (c # cs) =
     (if c = CHR 0x0A then line # splitlines_from [] cs
      else if c = CHR 0x0D then
        (case cs of
           [] \<Rightarrow> [line]
         | c' # cs' \<Rightarrow>
             if c' = CHR 0x0A then line # splitlines_from [] cs'
             else line # splitlines_from [] cs)
      else splitlines_from (line @ [c]) cs)"

definition splitlines :: "string \<Rightarrow> string list" where
  "splitlines body = splitlines_from [] body"

text \<open>
  \<^verbatim>\<open>json.dumps(flatten(json.loads(line)))\<close>. \<open>loads\<close> and \<open>dumps\<close> are \<^verbatim>\<open>json.loads\<close> and
  \<^verbatim>\<open>json.dumps\<close>; a decoded value that is not a \<^verbatim>\<open>dict\<close> has no \<^verbatim>\<open>items\<close>, which is an
  AttributeError in flatten.
\<close>

definition transform_line ::
  "(string \<Rightarrow> exn + json) \<Rightarrow> (json \<Rightarrow> string) \<Rightarrow> string \<Rightarrow> exn + string" where
  "transform_line loads dumps line =
     (case loads line of
        Inl e \<Rightarrow> Inl e
      | Inr v \<Rightarrow>
          (case v of
             JObj d \<Rightarrow> Inr (dumps (JObj (flatten d [] ''.'')))
           | _ \<Rightarrow> Inl AttributeError))"

text \<open>The list comprehension: the first line that raises ends it.\<close>

fun transform_lines ::
  "(string \<Rightarrow> exn + json) \<Rightarrow> (json \<Rightarrow> string) \<Rightarrow> string list \<Rightarrow> exn + string list" where
  "transform_lines loads dumps [] = Inr []"
| "transform_lines loads dumps (line # lines) =
     (case transform_line loads dumps line of
        Inl e \<Rightarrow> Inl e
      | Inr item \<Rightarrow>
          (case transform_lines loads dumps lines of
             Inl e \<Rightarrow> Inl e
           | Inr items \<Rightarrow> Inr (item # items)))"

text \<open>The body of the loop over \<^verbatim>\<open>event['Records']\<close>, for the record whose body is \<open>key\<close>.\<close>

definition transform_record ::
  "(nat \<Rightarrow> exn option) \<Rightarrow> (string \<Rightarrow> exn + json) \<Rightarrow> (json \<Rightarrow> string) \<Rightarrow> world \<Rightarrow> string \<Rightarrow>
     world \<times> (exn + unit)"
where
  "transform_record fault loads dumps w key =
     (case s3_get fault w key of
        (w1, Inl e) \<Rightarrow> (w1, Inl e)
      | (w1, Inr body) \<Rightarrow>
          (case transform_lines loads dumps (splitlines body) of
             Inl e \<Rightarrow> (w1, Inl e)
           | Inr items \<Rightarrow>
               (case s3_put fault w1 key (join [CHR 0x0A] items) of
                  (w2, Inl e) \<Rightarrow> (w2, Inl e)
                | (w2, Inr u) \<Rightarrow>
                    put_metric_data fault w2
                      [(''S3ObjectsProcessed'', 1), (''LinesProcessed'', length items)])))"

fun handler_transform ::
  "(nat \<Rightarrow> exn option) \<Rightarrow> (string \<Rightarrow> exn + json) \<Rightarrow> (json \<Rightarrow> string) \<Rightarrow> world \<Rightarrow> string list \<Rightarrow>
     world \<times> (exn + unit)"
where
  "handler_transform fault loads dumps w [] = (w, Inr ())"
| "handler_transform fault loads dumps w (key # records) =
     (case transform_record fault loads dumps w key of
        (w', Inl e) \<Rightarrow> (w', Inl e)
      | (w', Inr u) \<Rightarrow> handler_transform fault loads dumps w' records)"

section \<open>Auxiliary definitions and example inputs\<close>

text \<open>The key flatten gives a leaf with path \<open>p\<close> below the parent key \<open>pk\<close>.\<close>

definition compound :: "string \<Rightarrow> string \<Rightarrow> string list \<Rightarrow> string" where
  "compound sep pk p = (if pk \<noteq> [] then pk @ sep @ join sep p else join sep p)"

text \<open>
  Mappings: a flat one (with an empty key and a sequence that holds a mapping), one in
  which two paths join to the same key, and a nested one.
\<close>

definition flat_example :: "(string \<times> json) list" where
  "flat_example = [(''a.b'', JInt 1), ('''', JArr [JObj [(''x'', JNull)]]), (''c'', JStr ''s'')]"

definition collision :: "(string \<times> json) list" where
  "collision = [(''a.b'', JInt 1), (''a'', JObj [(''b'', JInt 2)])]"

definition nested_example :: "(string \<times> json) list" where
  "nested_example =
     [(''a'', JObj [(''b'', JInt 1), (''c'', JObj [(''d'', JArr [JObj [(''x'', JNull)]])])]),
      ('''', JStr ''e''),
      (''f'', JObj [])]"

text \<open>
  Pages of 7 and of 11 keys, two decoders for two records each, a queue whose call number
  \<open>j\<close> raises, a queue that accepts every call, and a supply of identifiers.
\<close>

definition seven_keys :: "string list" where
  "seven_keys = [''k1'', ''k2'', ''k3'', ''k4'', ''k5'', ''k6'', ''k7'']"

definition eleven_keys :: "string list" where
  "eleven_keys = [''k01'', ''k02'', ''k03'', ''k04'', ''k05'', ''k06'', ''k07'', ''k08'',
     ''k09'', ''k10'', ''k11'']"

definition two_pages :: "string \<Rightarrow> exn + string list" where
  "two_pages body =
     (if body = ''p1'' then Inr eleven_keys
      else if body = ''p2'' then Inr [''z'']
      else Inl JSONDecodeError)"

definition two_sizes :: "string \<Rightarrow> exn + string list" where
  "two_sizes body =
     (if body = ''p7'' then Inr seven_keys
      else if body = ''p11'' then Inr eleven_keys
      else Inl JSONDecodeError)"

definition fails_at :: "nat \<Rightarrow> 'm queue" where
  "fails_at j n m = (if n = j then Some ClientError else None)"

definition accepts :: "'m queue" where
  "accepts n m = None"

definition numbered :: "nat \<Rightarrow> string" where
  "numbered n = replicate (Suc n) (CHR ''u'')"

text \<open>
  A decoder and an encoder that stand in for \<^verbatim>\<open>json.loads\<close> and \<^verbatim>\<open>json.dumps\<close> in the
  examples: a line that starts with a bracket decodes to an empty sequence, an empty
  line does not decode, any other line decodes to a nested mapping that holds it.
\<close>

definition wrap_line :: "string \<Rightarrow> exn + json" where
  "wrap_line line =
     (if line = [] then Inl JSONDecodeError
      else if hd line = CHR ''['' then Inr (JArr [])
      else Inr (JObj [(''a'', JObj [(''b'', JStr line)])]))"

definition show_first :: "json \<Rightarrow> string" where
  "show_first v = (case v of JObj ((k, JStr x) # d) \<Rightarrow> k @ ''='' @ x | _ \<Rightarrow> ''{}'')"

text \<open>
  A source bucket with two objects of two lines each (the second line of the second
  object is not a mapping), and fault patterns for the requests.
\<close>

definition two_objects :: world where
  "two_objects =
     \<lparr>source = [''k1'' \<mapsto> ''x1'' @ [CHR 0x0A] @ ''x2'', ''k2'' \<mapsto> ''y1'' @ [CHR 0x0A] @ ''[]''],
      destination = [''k1'' \<mapsto> ''old''],
      metrics = [],
      requests = 0\<rparr>"

definition no_fault :: "nat \<Rightarrow> exn option" where
  "no_fault n = None"

definition fault_at :: "nat \<Rightarrow> nat \<Rightarrow> exn option" where
  "fault_at j n = (if n = j then Some ClientError else None)"

text \<open>
  Time budgets (ample; exhausted after the first key) and the event of a first
  invocation.
\<close>

definition plenty :: "nat \<Rightarrow> int" where
  "plenty n = 300000"

definition one_key_left :: "nat \<Rightarrow> int" where
  "one_key_left n = (if n = 0 then 60000 else 29999)"

definition fresh :: event where
  "fresh = \<lparr>bookmark = None, all_pages_listed = None\<rparr>"

section \<open>Properties of flatten\<close>

lemma setitem_fresh: "k \<notin> fst ` set d \<Longrightarrow> setitem d k v = d @ [(k, v)]"
  by (induction d) auto

lemma fold_setitem_distinct:
  "distinct (map fst (acc @ xs)) \<Longrightarrow> fold (\<lambda>(k, v) d. setitem d k v) xs acc = acc @ xs"
proof (induction xs arbitrary: acc)
  case Nil
  then show ?case by simp
next
  case (Cons x xs)
  obtain k v where x: "x = (k, v)" by (cases x)
  from Cons.prems have fresh: "k \<notin> fst ` set acc" by (auto simp: x)
  from Cons.prems have "distinct (map fst ((acc @ [(k, v)]) @ xs))" by (simp add: x)
  from Cons.IH [OF this] show ?case by (simp add: x setitem_fresh [OF fresh])
qed

lemma dict_distinct: "distinct (map fst xs) \<Longrightarrow> dict xs = xs"
  using fold_setitem_distinct [of "[]" xs] by (simp add: dict_def)

lemma flatten_items_flat:
  "\<forall>(k, v) \<in> set m. \<not> is_mapping v \<Longrightarrow> flatten_items m [] sep = m"
proof (induction m)
  case Nil
  then show ?case by simp
next
  case (Cons kv m)
  obtain k v where kv: "kv = (k, v)" by (cases kv)
  from Cons.prems have "\<not> is_mapping v" by (simp add: kv)
  then have "(case v of JObj d' \<Rightarrow> flatten d' k sep | _ \<Rightarrow> [(k, v)]) = [(k, v)]"
    by (cases v) simp_all
  with Cons show ?case by (simp add: kv)
qed

text \<open>
  C9. A mapping none of whose values is a mapping (a \<^verbatim>\<open>dict\<close>, so its keys are pairwise
  different) is returned unchanged by flatten, hence flattening it twice gives what
  flattening it once gives.
\<close>

theorem flatten_flat_idempotent:
  assumes "distinct (map fst m)" and "\<forall>(k, v) \<in> set m. \<not> is_mapping v"
  shows "flatten m [] ''.'' = m \<and> flatten (flatten m [] ''.'') [] ''.'' = flatten m [] ''.''"
proof -
  have "flatten m [] ''.'' = m"
    using assms by (simp add: flatten_items_flat dict_distinct)
  then show ?thesis by simp
qed

theorem flatten_flat_idempotent_witness:
  "distinct (map fst flat_example) \<and> \<not> list_ex (\<lambda>(k, v). is_mapping v) flat_example
   \<and> flatten flat_example [] ''.'' = flat_example
   \<and> flatten (flatten flat_example [] ''.'') [] ''.'' = flatten flat_example [] ''.''"
  using flatten_flat_idempotent [of flat_example]
  by (simp add: flat_example_def)

lemma leaf_paths_nonempty: "(p, x) \<in> set (leaf_paths d) \<Longrightarrow> p \<noteq> []"
  by (induction d arbitrary: p rule: leaf_paths.induct) (auto split: json.splits)

lemma leaf_paths_not_mapping: "(p, x) \<in> set (leaf_paths d) \<Longrightarrow> \<not> is_mapping x"
  by (induction d arbitrary: p rule: leaf_paths.induct) (auto split: json.splits)

lemma compound_single: "compound sep pk [k] = (if pk \<noteq> [] then pk @ sep @ k else k)"
  by (simp add: compound_def)

lemma compound_cons:
  "p \<noteq> [] \<Longrightarrow> pk \<noteq> [] \<or> k \<noteq> [] \<Longrightarrow>
   compound sep pk (k # p) = compound sep (if pk \<noteq> [] then pk @ sep @ k else k) p"
  by (cases p) (auto simp: compound_def)

lemma flatten_compound:
  "(pk \<noteq> [] \<or> (\<forall>(k, v) \<in> set d. is_mapping v \<longrightarrow> k \<noteq> [])) \<Longrightarrow>
   distinct (map (\<lambda>(p, x). compound sep pk p) (leaf_paths d)) \<Longrightarrow>
   flatten d pk sep = map (\<lambda>(p, x). (compound sep pk p, x)) (leaf_paths d)"
  "(pk \<noteq> [] \<or> (\<forall>(k, v) \<in> set d. is_mapping v \<longrightarrow> k \<noteq> [])) \<Longrightarrow>
   distinct (map (\<lambda>(p, x). compound sep pk p) (leaf_paths d)) \<Longrightarrow>
   flatten_items d pk sep = map (\<lambda>(p, x). (compound sep pk p, x)) (leaf_paths d)"
proof (induction d pk sep and d pk sep rule: flatten_flatten_items.induct)
  case (1 d pk sep)
  from 1 have items: "flatten_items d pk sep = map (\<lambda>(p, x). (compound sep pk p, x)) (leaf_paths d)"
    by blast
  have "fst \<circ> (\<lambda>(p, x). (compound sep pk p, x)) = (\<lambda>(p, x :: json). compound sep pk p)"
    by (auto simp: fun_eq_iff)
  with "1.prems"(2) have "distinct (map fst (flatten_items d pk sep))"
    by (simp add: items)
  then show ?case by (simp add: dict_distinct items)
next
  case (2 pk sep)
  show ?case by simp
next
  case (3 k v d pk sep)
  define nk where "nk = (if pk \<noteq> [] then pk @ sep @ k else k)"
  from "3.prems"(1) have rest_ok: "pk \<noteq> [] \<or> (\<forall>(k, v) \<in> set d. is_mapping v \<longrightarrow> k \<noteq> [])"
    by auto
  from "3.prems"(2) have rest_distinct: "distinct (map (\<lambda>(p, x). compound sep pk p) (leaf_paths d))"
    by simp
  have rest: "flatten_items d pk sep = map (\<lambda>(p, x). (compound sep pk p, x)) (leaf_paths d)"
    using "3.IH"(2) [OF nk_def [symmetric, THEN sym] rest_ok rest_distinct] .
  have unfold: "flatten_items ((k, v) # d) pk sep
      = (case v of JObj d' \<Rightarrow> flatten d' nk sep | _ \<Rightarrow> [(nk, v)]) @ flatten_items d pk sep"
    by (simp only: flatten_items.simps Let_def nk_def)
  show ?case
  proof (cases "is_mapping v")
    case False
    then have "(case v of JObj d' \<Rightarrow> flatten d' nk sep | _ \<Rightarrow> [(nk, v)]) = [(nk, v)]"
      by (cases v) simp_all
    moreover from False have "leaf_paths ((k, v) # d) = ([k], v) # leaf_paths d"
      by (cases v) simp_all
    moreover have "compound sep pk [k] = nk"
      by (simp add: compound_single nk_def)
    ultimately show ?thesis
      by (simp only: unfold rest list.map prod.case append.simps)
  next
    case True
    then obtain d' where v: "v = JObj d'" by (cases v) simp_all
    from "3.prems"(1) True have nonempty: "pk \<noteq> [] \<or> k \<noteq> []" by auto
    then have nk_nonempty: "nk \<noteq> []" by (auto simp: nk_def)
    have eq: "compound sep pk (k # p) = compound sep nk p" if "(p, x) \<in> set (leaf_paths d')" for p x
      using compound_cons [OF leaf_paths_nonempty [OF that] nonempty] by (simp add: nk_def)
    have m1: "map (\<lambda>(p, x). compound sep pk p) (map (\<lambda>(p, x). (k # p, x)) (leaf_paths d'))
          = map (\<lambda>(p, x). compound sep nk p) (leaf_paths d')"
      using eq by (auto simp: case_prod_beta)
    have m2: "map (\<lambda>(p, x). (compound sep pk p, x)) (map (\<lambda>(p, x). (k # p, x)) (leaf_paths d'))
          = map (\<lambda>(p, x). (compound sep nk p, x)) (leaf_paths d')"
      using eq by (auto simp: case_prod_beta)
    have lp: "leaf_paths ((k, v) # d) = map (\<lambda>(p, x). (k # p, x)) (leaf_paths d') @ leaf_paths d"
      by (simp add: v)
    from "3.prems"(2) have "distinct (map (\<lambda>(p, x). compound sep pk p)
        (map (\<lambda>(p, x). (k # p, x)) (leaf_paths d')))"
      by (simp only: lp map_append distinct_append)
    then have "distinct (map (\<lambda>(p, x). compound sep nk p) (leaf_paths d'))"
      by (simp only: m1)
    with "3.IH"(1) [OF nk_def [symmetric, THEN sym] v] nk_nonempty
    have inner: "flatten d' nk sep = map (\<lambda>(p, x). (compound sep nk p, x)) (leaf_paths d')"
      by blast
    have "flatten_items ((k, v) # d) pk sep = flatten d' nk sep @ flatten_items d pk sep"
      using unfold by (simp only: v json.case)
    also have "\<dots> = map (\<lambda>(p, x). (compound sep nk p, x)) (leaf_paths d')
        @ map (\<lambda>(p, x). (compound sep pk p, x)) (leaf_paths d)"
      by (simp only: inner rest)
    also have "\<dots> = map (\<lambda>(p, x). (compound sep pk p, x)) (leaf_paths ((k, v) # d))"
      by (simp only: lp map_append m2)
    finally show ?thesis .
  qed
qed

lemma join_compound: "compound sep [] p = join sep p"
  by (simp add: compound_def)

text \<open>
  C5, amended. When no two leaves of \<open>d\<close> have paths that join to the same compound key
  and no top-level key that holds a mapping is the empty string, \<^verbatim>\<open>flatten(d)\<close> is the
  list of the leaves of \<open>d\<close>, each under its path joined with \<^verbatim>\<open>'.'\<close>: every leaf (a
  sequence included) is found under its joined path, no value of the result is a
  mapping, and its keys are pairwise different. On the fixture the result is
  \<^verbatim>\<open>{"a.b": 1, "a.c.d": 2}\<close>.
\<close>

theorem flatten_leaves:
  assumes top: "\<forall>(k, v) \<in> set d. is_mapping v \<longrightarrow> k \<noteq> []"
    and dist: "distinct (map (\<lambda>(p, x). join ''.'' p) (leaf_paths d))"
  shows "flatten d [] ''.'' = map (\<lambda>(p, x). (join ''.'' p, x)) (leaf_paths d)
    \<and> (\<forall>(p, x) \<in> set (leaf_paths d). map_of (flatten d [] ''.'') (join ''.'' p) = Some x)
    \<and> (\<forall>(k, x) \<in> set (flatten d [] ''.''). \<not> is_mapping x)
    \<and> distinct (map fst (flatten d [] ''.''))
    \<and> flatten fixture [] ''.'' = [(''a.b'', JInt 1), (''a.c.d'', JInt 2)]"
proof -
  let ?r = "map (\<lambda>(p, x). (join ''.'' p, x)) (leaf_paths d)"
  have eq: "flatten d [] ''.'' = ?r"
    using flatten_compound(1) [of "[]" d "''.''"] top dist by (simp only: join_compound) blast
  have keys: "map fst ?r = map (\<lambda>(p, x). join ''.'' p) (leaf_paths d)"
    by (simp add: case_prod_beta comp_def)
  have d: "distinct (map fst ?r)"
    using dist by (simp only: keys)
  have look: "map_of ?r (join ''.'' p) = Some x" if "(p, x) \<in> set (leaf_paths d)" for p x
  proof -
    from that have "(join ''.'' p, x) \<in> set ?r" by force
    with d show ?thesis by (simp only: map_of_eq_Some_iff)
  qed
  have leafs: "\<not> is_mapping x" if "(k, x) \<in> set ?r" for k x
    using that leaf_paths_not_mapping by auto
  have fixt: "flatten fixture [] ''.'' = [(''a.b'', JInt 1), (''a.c.d'', JInt 2)]"
    by (simp add: fixture_def dict_def)
  from look leafs d fixt show ?thesis
    unfolding eq by blast
qed

theorem flatten_leaves_witness:
  "\<not> list_ex (\<lambda>(k, v). is_mapping v \<and> k = []) nested_example
   \<and> distinct (map (\<lambda>(p, x). join ''.'' p) (leaf_paths nested_example))
   \<and> flatten nested_example [] ''.''
       = [(''a.b'', JInt 1), (''a.c.d'', JArr [JObj [(''x'', JNull)]]), ('''', JStr ''e'')]
   \<and> map_of (flatten nested_example [] ''.'') ''a.c.d'' = Some (JArr [JObj [(''x'', JNull)]])"
  using flatten_leaves [of nested_example]
  by (simp add: nested_example_def)

theorem flatten_collision_counterexample:
  "([''a.b''], JInt 1) \<in> set (leaf_paths collision)
   \<and> join ''.'' [''a.b''] = ''a.b''
   \<and> flatten collision [] ''.'' = [(''a.b'', JInt 2)]
   \<and> map_of (flatten collision [] ''.'') (join ''.'' [''a.b'']) \<noteq> Some (JInt 1)"
  by (simp add: collision_def dict_def)

text \<open>
  Below a top-level key that is the empty string, \<^verbatim>\<open>if parent_key\<close> takes the parent key
  for absent and the separator is left out.
\<close>

lemma flatten_empty_parent_key:
  "flatten [('''', JObj [(''b'', JInt 1)])] [] ''.'' = [(''b'', JInt 1)]
   \<and> join ''.'' ['''', ''b''] = ''.b''"
  by (simp add: dict_def)

section \<open>Properties of chunks and of the Splitter\<close>

lemma range_py_closed:
  "0 < n \<Longrightarrow> range_py i stop n = map (\<lambda>j. i + j * n) [0..<(stop - i + n - 1) div n]"
proof (induction i stop n rule: range_py.induct)
  case (1 i stop step)
  show ?case
  proof (cases "stop \<le> i")
    case True
    with "1.prems" show ?thesis by (simp add: range_py.simps [of i])
  next
    case False
    with "1.prems" have IH: "range_py (i + step) stop step
        = map (\<lambda>j. i + step + j * step) [0..<(stop - (i + step) + step - 1) div step]"
      using "1.IH" by simp
    have cnt: "(stop - i + step - 1) div step = Suc ((stop - (i + step) + step - 1) div step)"
    proof (cases "stop - i < step")
      case True
      with False "1.prems" have "(stop - i + step - 1) div step = 1"
        by (simp add: div_nat_eqI)
      moreover from True have "(stop - (i + step) + step - 1) div step = 0"
        by simp
      ultimately show ?thesis by simp
    next
      case False
      define x where "x = stop - (i + step) + step - 1"
      from False have "stop - i + step - 1 = x + step"
        using "1.prems" by (simp add: x_def)
      then have "(stop - i + step - 1) div step = (x + step) div step"
        by (simp only:)
      also have "\<dots> = Suc (x div step)"
        using "1.prems" div_add_self2 [of step x] by auto
      finally show ?thesis by (simp only: x_def)
    qed
    have "range_py i stop step = i # range_py (i + step) stop step"
      using False "1.prems" by (simp add: range_py.simps [of i])
    also have "\<dots> = i # map (\<lambda>j. i + step + j * step) [0..<(stop - (i + step) + step - 1) div step]"
      by (simp only: IH)
    also have "\<dots> = map (\<lambda>j. i + j * step) [0..<Suc ((stop - (i + step) + step - 1) div step)]"
      by (simp add: upt_conv_Cons map_Suc_upt [symmetric] del: upt_Suc add: ac_simps)
    finally show ?thesis by (simp only: cnt)
  qed
qed

lemma concat_slices:
  "concat (map (\<lambda>j. take n (drop (j * n) l)) [0..<m]) = take (m * n) l"
proof (induction m)
  case 0
  show ?case by simp
next
  case (Suc m)
  have "take (m * n) l @ take n (drop (m * n) l) = take (m * n + n) l"
    by (simp add: take_add)
  with Suc show ?case by (simp add: ac_simps)
qed

lemma chunks_closed:
  "0 < n \<Longrightarrow> chunks l n = Inr (map (\<lambda>j. take n (drop (j * n) l)) [0..<(length l + n - 1) div n])"
  by (simp add: chunks_def range_py_closed comp_def)

lemma chunks_10:
  "chunks l 10 = Inr (map (\<lambda>j. take 10 (drop (j * 10) l)) [0..<(length l + 9) div 10])"
  using chunks_closed [of 10 l] by (simp add: add.commute)

lemma chunks_10_concat:
  "concat (map (\<lambda>j. take 10 (drop (j * 10) l)) [0..<(length l + 9) div 10]) = l"
proof -
  have "length l \<le> (length l + 9) div 10 * 10" by presburger
  then show ?thesis by (simp add: concat_slices)
qed

lemma bodies_entries: "map MessageBody (entries_of uuid4 n batch) = batch"
proof -
  have "MessageBody \<circ> (\<lambda>(i, key). \<lparr>EntryId = uuid4 (n + i), MessageBody = key\<rparr>) = snd"
    by (auto simp: fun_eq_iff)
  then show ?thesis by (simp add: entries_of_def)
qed

lemma send_batches_step:
  "send_batches uuid4 q (batch # batches) s =
     (case q (length (calls s)) (entries_of uuid4 (ids s) batch) of
        Some e \<Rightarrow> (s\<lparr>calls := calls s @ [entries_of uuid4 (ids s) batch], ids := ids s + length batch\<rparr>, Inl e)
      | None \<Rightarrow> send_batches uuid4 q batches
          (s\<lparr>calls := calls s @ [entries_of uuid4 (ids s) batch], ids := ids s + length batch\<rparr>))"
  by (simp add: Let_def)

lemma send_batches_ok:
  "\<forall>i<length bs. \<forall>es. q (length (calls s) + i) es = None \<Longrightarrow>
   snd (send_batches uuid4 q bs s) = Inr ()
   \<and> map (map MessageBody) (calls (fst (send_batches uuid4 q bs s)))
       = map (map MessageBody) (calls s) @ bs"
proof (induction bs arbitrary: s)
  case Nil
  show ?case by simp
next
  case (Cons b bs)
  let ?s = "s\<lparr>calls := calls s @ [entries_of uuid4 (ids s) b], ids := ids s + length b\<rparr>"
  from Cons.prems have here: "q (length (calls s)) (entries_of uuid4 (ids s) b) = None"
    by force
  have "\<forall>i<length bs. \<forall>es. q (length (calls ?s) + i) es = None"
  proof (intro allI impI)
    fix i es assume "i < length bs"
    then have "Suc i < length (b # bs)" by simp
    with Cons.prems have "q (length (calls s) + Suc i) es = None" by blast
    then show "q (length (calls ?s) + i) es = None" by simp
  qed
  from Cons.IH [OF this] show ?case
    by (simp only: send_batches_step here option.case) (simp add: bodies_entries)
qed

lemma send_batches_raise:
  "j < length bs \<Longrightarrow> \<forall>i<j. \<forall>es. q (length (calls s) + i) es = None \<Longrightarrow>
   \<forall>es. q (length (calls s) + j) es = Some e \<Longrightarrow>
   snd (send_batches uuid4 q bs s) = Inl e
   \<and> map (map MessageBody) (calls (fst (send_batches uuid4 q bs s)))
       = map (map MessageBody) (calls s) @ take (Suc j) bs"
proof (induction bs arbitrary: s j)
  case Nil
  then show ?case by simp
next
  case (Cons b bs)
  let ?s = "s\<lparr>calls := calls s @ [entries_of uuid4 (ids s) b], ids := ids s + length b\<rparr>"
  show ?case
  proof (cases j)
    case 0
    with Cons.prems have "q (length (calls s)) (entries_of uuid4 (ids s) b) = Some e"
      by simp
    then show ?thesis
      by (simp only: send_batches_step option.case) (simp add: bodies_entries 0)
  next
    case (Suc j')
    with Cons.prems have here: "q (length (calls s)) (entries_of uuid4 (ids s) b) = None"
      by force
    from Cons.prems Suc have len: "j' < length bs" by simp
    have before: "\<forall>i<j'. \<forall>es. q (length (calls ?s) + i) es = None"
    proof (intro allI impI)
      fix i es assume "i < j'"
      then have "Suc i < j" by (simp add: Suc)
      with Cons.prems have "q (length (calls s) + Suc i) es = None" by blast
      then show "q (length (calls ?s) + i) es = None" by simp
    qed
    from Cons.prems have at: "\<forall>es. q (length (calls ?s) + j') es = Some e"
      by (simp add: Suc)
    from Cons.IH [OF len before at] show ?thesis
      by (simp only: send_batches_step here option.case) (simp add: bodies_entries Suc)
  qed
qed

lemma send_batches_append:
  "send_batches uuid4 q (xs @ ys) s =
     (case send_batches uuid4 q xs s of
        (s', Inl e) \<Rightarrow> (s', Inl e)
      | (s', Inr u) \<Rightarrow> send_batches uuid4 q ys s')"
proof (induction xs arbitrary: s)
  case Nil
  show ?case by simp
next
  case (Cons x xs)
  show ?case
    by (simp only: append_Cons send_batches_step Cons.IH split: option.split) simp
qed

lemma split_records_batches:
  "map loads records = map Inr pages \<Longrightarrow>
   split_records loads uuid4 q records s = send_batches uuid4 q (batches_of pages) s"
proof (induction records arbitrary: pages s)
  case Nil
  then show ?case by (simp add: batches_of_def)
next
  case (Cons body records)
  then obtain p ps where pages: "pages = p # ps" and p: "loads body = Inr p"
    and ps: "map loads records = map Inr ps"
    by (cases pages) auto
  have b: "batches_of (p # ps) = (case chunks p 10 of Inl e \<Rightarrow> [] | Inr bs \<Rightarrow> bs) @ batches_of ps"
    by (simp add: batches_of_def)
  show ?case
    by (simp add: pages p b chunks_10 send_batches_append Cons.IH [OF ps] split: prod.split sum.split)
qed

lemma sub_sequences_chunks: "chunks keys 10 = Inr (sub_sequences keys)"
  by (simp add: chunks_10 sub_sequences_def mult.commute)

lemma batches_of_sub_sequences: "batches_of pages = concat (map sub_sequences pages)"
  by (simp add: batches_of_def sub_sequences_chunks)

lemma sub_sequences_concat: "concat (sub_sequences keys) = keys"
  using chunks_10_concat [of keys] by (simp add: sub_sequences_def mult.commute)

lemma sub_sequences_sizes:
  "b \<in> set (sub_sequences keys) \<Longrightarrow> b \<noteq> [] \<and> length b \<le> 10"
proof -
  assume "b \<in> set (sub_sequences keys)"
  then obtain j where j: "j < (length keys + 9) div 10" and b: "b = take 10 (drop (10 * j) keys)"
    by (auto simp: sub_sequences_def)
  from j have "10 * j < length keys" by presburger
  with b show ?thesis by simp
qed

text \<open>
  C4, amended. When the bodies of the records of an invocation decode to \<open>pages\<close> and no
  bulk send raises, the Splitter returns after sending, page after page in the order
  of the records, the consecutive sub-sequences of each page: for a page of \<open>K\<close> keys
  exactly \<open>ceil(K / 10)\<close> bulk sends, each of at least one and at most 10 entries, call
  number \<open>j\<close> of the page carrying the keys at positions \<open>10 j\<close> to \<open>10 j + 9\<close>, so that
  the message bodies of the calls of a page, in order, are the page; a page of 7 keys
  is sent in one call of 7 messages.
\<close>

theorem split_page_chunks:
  assumes decode: "map loads records = map Inr pages" and accept: "\<forall>n es. q n es = None"
  shows "snd (handler_split_page loads uuid4 q records) = Inr ()
    \<and> map (map MessageBody) (calls (fst (handler_split_page loads uuid4 q records)))
        = concat (map sub_sequences pages)
    \<and> length (calls (fst (handler_split_page loads uuid4 q records)))
        = sum_list (map (\<lambda>keys. (length keys + 9) div 10) pages)
    \<and> (\<forall>c \<in> set (calls (fst (handler_split_page loads uuid4 q records))).
         c \<noteq> [] \<and> length c \<le> 10)
    \<and> map MessageBody (concat (calls (fst (handler_split_page loads uuid4 q records))))
        = concat pages
    \<and> (\<forall>keys \<in> set pages. length (sub_sequences keys) = (length keys + 9) div 10
         \<and> concat (sub_sequences keys) = keys
         \<and> (\<forall>j < length (sub_sequences keys).
              sub_sequences keys ! j = take 10 (drop (10 * j) keys))
         \<and> (length keys = 7 \<longrightarrow> sub_sequences keys = [keys]))"
proof -
  let ?init = "\<lparr>calls = [], ids = 0\<rparr>"
  let ?cs = "calls (fst (handler_split_page loads uuid4 q records))"
  have run: "handler_split_page loads uuid4 q records
      = send_batches uuid4 q (batches_of pages) ?init"
    using split_records_batches [OF decode] by (simp add: handler_split_page_def)
  have ok: "snd (send_batches uuid4 q (batches_of pages) ?init) = Inr ()
      \<and> map (map MessageBody) (calls (fst (send_batches uuid4 q (batches_of pages) ?init)))
          = map (map MessageBody) (calls ?init) @ batches_of pages"
    by (rule send_batches_ok) (simp add: accept)
  from ok have r: "snd (handler_split_page loads uuid4 q records) = Inr ()"
    by (simp only: run)
  from ok have bodies: "map (map MessageBody) ?cs = concat (map sub_sequences pages)"
    by (simp only: run batches_of_sub_sequences) simp
  have "length ?cs = length (map (map MessageBody) ?cs)" by simp
  also have "\<dots> = sum_list (map (\<lambda>keys. (length keys + 9) div 10) pages)"
    by (simp only: bodies) (simp add: length_concat comp_def sub_sequences_def)
  finally have len: "length ?cs = sum_list (map (\<lambda>keys. (length keys + 9) div 10) pages)" .
  have sizes: "c \<noteq> [] \<and> length c \<le> 10" if "c \<in> set ?cs" for c
  proof -
    from that have "map MessageBody c \<in> set (map (map MessageBody) ?cs)" by simp
    then have "map MessageBody c \<in> set (concat (map sub_sequences pages))"
      by (simp only: bodies)
    then obtain keys where "map MessageBody c \<in> set (sub_sequences keys)" by auto
    from sub_sequences_sizes [OF this] show ?thesis by simp
  qed
  have "map MessageBody (concat ?cs) = concat (map (map MessageBody) ?cs)"
    by (simp add: map_concat)
  also have "\<dots> = concat (concat (map sub_sequences pages))" by (simp only: bodies)
  also have "\<dots> = concat pages"
    by (induction pages) (simp_all add: sub_sequences_concat)
  finally have cover: "map MessageBody (concat ?cs) = concat pages" .
  have page: "length (sub_sequences keys) = (length keys + 9) div 10
         \<and> concat (sub_sequences keys) = keys
         \<and> (\<forall>j < length (sub_sequences keys).
              sub_sequences keys ! j = take 10 (drop (10 * j) keys))
         \<and> (length keys = 7 \<longrightarrow> sub_sequences keys = [keys])" for keys :: "string list"
    by (simp add: sub_sequences_concat) (simp add: sub_sequences_def)
  from r bodies len sizes cover page show ?thesis by blast
qed

theorem split_page_chunks_witness:
  "map two_sizes [''p7'', ''p11''] = map Inr [seven_keys, eleven_keys]
   \<and> snd (handler_split_page two_sizes numbered accepts [''p7'', ''p11'']) = Inr ()
   \<and> map (map MessageBody) (calls (fst (handler_split_page two_sizes numbered accepts [''p7'', ''p11''])))
       = [seven_keys, take 10 eleven_keys, [''k11'']]
   \<and> length (calls (fst (handler_split_page two_sizes numbered accepts [''p7'', ''p11'']))) = 3"
proof -
  have d: "map two_sizes [''p7'', ''p11''] = map Inr [seven_keys, eleven_keys]"
    by (simp add: two_sizes_def)
  have a: "\<forall>n es. (accepts :: entry list queue) n es = None"
    by (simp add: accepts_def)
  have s7: "sub_sequences seven_keys = [seven_keys]"
    by (simp add: sub_sequences_def seven_keys_def)
  have s11: "sub_sequences eleven_keys = [take 10 eleven_keys, [''k11'']]"
    by (simp add: sub_sequences_def eleven_keys_def upt_rec)
  note all = split_page_chunks [OF d a, of numbered]
  from all have r: "snd (handler_split_page two_sizes numbered accepts [''p7'', ''p11'']) = Inr ()"
    by (rule conjunct1)
  from all have "map (map MessageBody)
      (calls (fst (handler_split_page two_sizes numbered accepts [''p7'', ''p11''])))
      = concat (map sub_sequences [seven_keys, eleven_keys])"
    by (rule conjunct2 [THEN conjunct1])
  then have b: "map (map MessageBody)
      (calls (fst (handler_split_page two_sizes numbered accepts [''p7'', ''p11''])))
      = [seven_keys, take 10 eleven_keys, [''k11'']]"
    by (simp add: s7 s11)
  have "length (calls (fst (handler_split_page two_sizes numbered accepts [''p7'', ''p11'']))) = 3"
    using arg_cong [OF b, of length] by simp
  with d r b show ?thesis by (simp only:)
qed

theorem split_page_raise_counterexample:
  "(\<lambda>body. Inr eleven_keys :: exn + string list) ''page'' = Inr eleven_keys
   \<and> (length eleven_keys + 9) div 10 = 2
   \<and> snd (handler_split_page (\<lambda>body. Inr eleven_keys) numbered (fails_at 0) [''page''])
       = Inl ClientError
   \<and> length (calls (fst (handler_split_page (\<lambda>body. Inr eleven_keys) numbered (fails_at 0)
         [''page'']))) = 1"
  by (simp add: handler_split_page_def chunks_def range_py.simps eleven_keys_def fails_at_def
      entries_of_def)

text \<open>
  C2, amended. When the bodies of the records decode to \<open>pages\<close> and the bulk send of
  sub-sequence number \<open>j\<close> (counted over all pages of the invocation) is the first that
  raises, the exception leaves the handler; the sends attempted are those of the
  sub-sequences up to and including number \<open>j\<close>, so the remaining sub-sequences of that
  page and the remaining pages are not attempted.
\<close>

theorem split_page_failed_send:
  assumes decode: "map loads records = map Inr pages"
    and j: "j < length (batches_of pages)"
    and before: "\<forall>i<j. \<forall>es. q i es = None"
    and raises: "\<forall>es. q j es = Some e"
  shows "snd (handler_split_page loads uuid4 q records) = Inl e
    \<and> map (map MessageBody) (calls (fst (handler_split_page loads uuid4 q records)))
        = take (Suc j) (batches_of pages)"
proof -
  let ?s0 = "\<lparr>calls = [], ids = 0\<rparr>"
  have run: "handler_split_page loads uuid4 q records = send_batches uuid4 q (batches_of pages) ?s0"
    using split_records_batches [OF decode] by (simp add: handler_split_page_def)
  have "snd (send_batches uuid4 q (batches_of pages) ?s0) = Inl e
      \<and> map (map MessageBody) (calls (fst (send_batches uuid4 q (batches_of pages) ?s0)))
          = map (map MessageBody) (calls ?s0) @ take (Suc j) (batches_of pages)"
    by (rule send_batches_raise) (simp_all add: j before raises)
  then show ?thesis by (simp only: run) simp
qed

theorem split_page_failed_send_witness:
  "map two_pages [''p1'', ''p2''] = map Inr [eleven_keys, [''z'']]
   \<and> batches_of [eleven_keys, [''z'']] = [take 10 eleven_keys, [''k11''], [''z'']]
   \<and> snd (handler_split_page two_pages numbered (fails_at 1) [''p1'', ''p2'']) = Inl ClientError
   \<and> map (map MessageBody)
        (calls (fst (handler_split_page two_pages numbered (fails_at 1) [''p1'', ''p2''])))
       = [take 10 eleven_keys, [''k11'']]"
proof -
  have b: "batches_of [eleven_keys, [''z'']] = [take 10 eleven_keys, [''k11''], [''z'']]"
    by (simp add: batches_of_def chunks_def range_py.simps eleven_keys_def)
  have d: "map two_pages [''p1'', ''p2''] = map Inr [eleven_keys, [''z'']]"
    by (simp add: two_pages_def)
  have "(1::nat) < length (batches_of [eleven_keys, [''z'']])"
    by (simp add: b)
  from split_page_failed_send [OF d this, of "fails_at 1" ClientError numbered]
  show ?thesis
    using d by (simp add: fails_at_def b)
qed

theorem split_page_abort_counterexample:
  "map two_pages [''p1'', ''p2''] = map Inr [eleven_keys, [''z'']]
   \<and> batches_of [eleven_keys, [''z'']] = [take 10 eleven_keys, [''k11''], [''z'']]
   \<and> snd (handler_split_page two_pages numbered (fails_at 0) [''p1'', ''p2'']) = Inl ClientError
   \<and> map (map MessageBody)
        (calls (fst (handler_split_page two_pages numbered (fails_at 0) [''p1'', ''p2''])))
       = [take 10 eleven_keys]"
  by (simp add: handler_split_page_def two_pages_def batches_of_def chunks_def range_py.simps
      eleven_keys_def fails_at_def entries_of_def enumerate_eq_zip)

section \<open>Properties of the Transformer\<close>

lemma splitlines_two_lines: "splitlines (''x1'' @ [CHR 0x0A] @ ''x2'') = [''x1'', ''x2'']"
  by (simp add: splitlines_def)

lemma splitlines_line_ends:
  "splitlines (''x1'' @ [CHR 0x0D, CHR 0x0A] @ [CHR 0x0A] @ ''x2'' @ [CHR 0x0D]) = [''x1'', [], ''x2'']"
  by (simp add: splitlines_def)

lemma transform_lines_fail:
  "line \<in> set lines \<Longrightarrow> isl (transform_line loads dumps line) \<Longrightarrow>
   isl (transform_lines loads dumps lines)"
  by (induction lines) (auto split: sum.splits)

lemma transform_record_source:
  "source (fst (transform_record fault loads dumps w key)) = source w"
  by (simp add: transform_record_def s3_get_def s3_put_def put_metric_data_def Let_def
      split: option.split sum.split)

lemma handler_transform_source:
  "source (fst (handler_transform fault loads dumps w records)) = source w"
proof (induction records arbitrary: w)
  case Nil
  show ?case by simp
next
  case (Cons key records)
  show ?case
    using transform_record_source [of fault loads dumps w key] Cons.IH
    by (auto split: prod.split sum.split)
qed

lemma handler_transform_append:
  "handler_transform fault loads dumps w (xs @ ys) =
     (case handler_transform fault loads dumps w xs of
        (w', Inl e) \<Rightarrow> (w', Inl e)
      | (w', Inr u) \<Rightarrow> handler_transform fault loads dumps w' ys)"
  by (induction xs arbitrary: w) (auto split: prod.split sum.split)

lemma transform_record_read_fails:
  "fault (requests w) \<noteq> None \<or> source w key = None \<Longrightarrow>
   isl (snd (transform_record fault loads dumps w key))
   \<and> destination (fst (transform_record fault loads dumps w key)) = destination w"
  by (auto simp: transform_record_def s3_get_def Let_def split: option.split)

lemma transform_record_line_fails:
  "source w key = Some body \<Longrightarrow> isl (transform_lines loads dumps (splitlines body)) \<Longrightarrow>
   isl (snd (transform_record fault loads dumps w key))
   \<and> destination (fst (transform_record fault loads dumps w key)) = destination w"
  by (auto simp: transform_record_def s3_get_def Let_def split: option.split sum.split)

lemma transform_record_write_fails:
  "fault (Suc (requests w)) \<noteq> None \<Longrightarrow>
   isl (snd (transform_record fault loads dumps w key))
   \<and> destination (fst (transform_record fault loads dumps w key)) = destination w"
  by (auto simp: transform_record_def s3_get_def s3_put_def Let_def split: option.split sum.split)

text \<open>
  C7. Whatever records were processed before it, when for a record the read of the
  source object fails, or a line of the object fails to parse or to flatten, or the
  write of the destination object fails, the invocation ends with an exception and
  the destination bucket is as it was before that record: nothing is written for the
  key.
\<close>

theorem transform_failure_propagates:
  assumes before: "handler_transform fault loads dumps w0 earlier = (w, Inr ())"
    and failure:
      "fault (requests w) \<noteq> None \<or> source w key = None
       \<or> (\<exists>body. source w key = Some body
            \<and> (\<exists>line \<in> set (splitlines body). isl (transform_line loads dumps line)))
       \<or> fault (Suc (requests w)) \<noteq> None"
  shows "isl (snd (handler_transform fault loads dumps w0 (earlier @ key # later)))
    \<and> destination (fst (handler_transform fault loads dumps w0 (earlier @ key # later)))
        = destination w"
proof -
  have one: "isl (snd (transform_record fault loads dumps w key))
      \<and> destination (fst (transform_record fault loads dumps w key)) = destination w"
    using failure
  proof (elim disjE exE conjE bexE)
    assume "fault (requests w) \<noteq> None"
    then show ?thesis using transform_record_read_fails by blast
  next
    assume "source w key = None"
    then show ?thesis using transform_record_read_fails by blast
  next
    fix body line
    assume "source w key = Some body" "line \<in> set (splitlines body)"
      "isl (transform_line loads dumps line)"
    then show ?thesis
      using transform_record_line_fails transform_lines_fail by blast
  next
    assume "fault (Suc (requests w)) \<noteq> None"
    then show ?thesis by (rule transform_record_write_fails)
  qed
  obtain w' r where tr: "transform_record fault loads dumps w key = (w', r)"
    by (cases "transform_record fault loads dumps w key")
  with one obtain e where r: "r = Inl e" by (cases r) auto
  have "handler_transform fault loads dumps w0 (earlier @ key # later) = (w', Inl e)"
    by (simp add: handler_transform_append before tr r)
  with one tr show ?thesis by simp
qed

theorem transform_failure_propagates_witness:
  "handler_transform no_fault wrap_line show_first two_objects [''k1'']
     = (two_objects\<lparr>destination := [''k1'' \<mapsto> ''a.b=x1'' @ [CHR 0x0A] @ ''a.b=x2''],
          metrics := [[(''S3ObjectsProcessed'', 1), (''LinesProcessed'', 2)]],
          requests := 3\<rparr>, Inr ())
   \<and> source two_objects ''k2'' = Some (''y1'' @ [CHR 0x0A] @ ''[]'')
   \<and> ''[]'' \<in> set (splitlines (''y1'' @ [CHR 0x0A] @ ''[]''))
   \<and> transform_line wrap_line show_first ''[]'' = Inl AttributeError
   \<and> snd (handler_transform no_fault wrap_line show_first two_objects [''k1'', ''k2'', ''k1''])
       = Inl AttributeError
   \<and> destination (fst (handler_transform no_fault wrap_line show_first two_objects
         [''k1'', ''k2'', ''k1'']))
       = [''k1'' \<mapsto> ''a.b=x1'' @ [CHR 0x0A] @ ''a.b=x2'']"
proof -
  let ?w = "two_objects\<lparr>destination := [''k1'' \<mapsto> ''a.b=x1'' @ [CHR 0x0A] @ ''a.b=x2''],
          metrics := [[(''S3ObjectsProcessed'', 1), (''LinesProcessed'', 2)]],
          requests := 3\<rparr>"
  have run: "handler_transform no_fault wrap_line show_first two_objects [''k1''] = (?w, Inr ())"
    by (simp add: transform_record_def s3_get_def s3_put_def put_metric_data_def Let_def
        two_objects_def no_fault_def splitlines_def transform_line_def wrap_line_def
        show_first_def dict_def)
  have src: "source ?w ''k2'' = Some (''y1'' @ [CHR 0x0A] @ ''[]'')"
    by (simp add: two_objects_def)
  have line: "''[]'' \<in> set (splitlines (''y1'' @ [CHR 0x0A] @ ''[]''))"
    by (simp add: splitlines_def)
  have bad: "transform_line wrap_line show_first ''[]'' = Inl AttributeError"
    by (simp add: transform_line_def wrap_line_def)
  have "fault (requests ?w) \<noteq> None \<or> source ?w ''k2'' = None
       \<or> (\<exists>body. source ?w ''k2'' = Some body
            \<and> (\<exists>line \<in> set (splitlines body). isl (transform_line wrap_line show_first line)))
       \<or> fault (Suc (requests ?w)) \<noteq> None" for fault :: "nat \<Rightarrow> exn option"
    using src line bad by (metis sum.disc(1))
  from transform_failure_propagates [OF run this, of "[''k1'']"]
  have "isl (snd (handler_transform no_fault wrap_line show_first two_objects [''k1'', ''k2'', ''k1'']))
    \<and> destination (fst (handler_transform no_fault wrap_line show_first two_objects
         [''k1'', ''k2'', ''k1'']))
       = destination ?w"
    by simp
  moreover have "snd (handler_transform no_fault wrap_line show_first two_objects [''k1'', ''k2'', ''k1''])
       = Inl AttributeError"
    by (simp add: transform_record_def s3_get_def s3_put_def put_metric_data_def Let_def
        two_objects_def no_fault_def splitlines_def transform_line_def wrap_line_def
        show_first_def dict_def)
  ultimately show ?thesis
    using run src line bad by (simp add: two_objects_def)
qed

text \<open>
  C3, amended. For a record whose read, transform and destination write have succeeded,
  a failure of the counter emission is not caught: the exception ends the invocation,
  the records after it in the batch are not processed, and the destination object
  written for the key stays written.
\<close>

theorem metrics_failure_propagates:
  assumes got: "fault (requests w) = None" "source w key = Some body"
    and items: "transform_lines loads dumps (splitlines body) = Inr items"
    and stored: "fault (Suc (requests w)) = None"
    and emit: "fault (Suc (Suc (requests w))) = Some e"
  shows "handler_transform fault loads dumps w (key # later)
    = (w\<lparr>requests := Suc (Suc (Suc (requests w))),
         destination := (destination w)(key \<mapsto> join [CHR 0x0A] items)\<rparr>, Inl e)"
  using assms
  by (simp add: transform_record_def s3_get_def s3_put_def put_metric_data_def Let_def)

theorem metrics_failure_propagates_witness:
  "fault_at 2 (requests two_objects) = None
   \<and> source two_objects ''k1'' = Some (''x1'' @ [CHR 0x0A] @ ''x2'')
   \<and> transform_lines wrap_line show_first (splitlines (''x1'' @ [CHR 0x0A] @ ''x2''))
       = Inr [''a.b=x1'', ''a.b=x2'']
   \<and> fault_at 2 (Suc (requests two_objects)) = None
   \<and> fault_at 2 (Suc (Suc (requests two_objects))) = Some ClientError
   \<and> handler_transform (fault_at 2) wrap_line show_first two_objects [''k1'', ''k2'']
       = (two_objects\<lparr>requests := 3,
            destination := [''k1'' \<mapsto> ''a.b=x1'' @ [CHR 0x0A] @ ''a.b=x2'']\<rparr>, Inl ClientError)"
proof -
  have r: "fault_at 2 (requests two_objects) = None"
    and w: "fault_at 2 (Suc (requests two_objects)) = None"
    and m: "fault_at 2 (Suc (Suc (requests two_objects))) = Some ClientError"
    by (simp_all add: fault_at_def two_objects_def)
  have s: "source two_objects ''k1'' = Some (''x1'' @ [CHR 0x0A] @ ''x2'')"
    by (simp add: two_objects_def)
  have i: "transform_lines wrap_line show_first (splitlines (''x1'' @ [CHR 0x0A] @ ''x2''))
       = Inr [''a.b=x1'', ''a.b=x2'']"
    by (simp add: splitlines_def transform_line_def wrap_line_def show_first_def dict_def)
  from metrics_failure_propagates [OF r s i w m, of "[''k2'']"] r s i w m
  show ?thesis by (simp add: two_objects_def)
qed

theorem metrics_failure_counterexample:
  "source two_objects ''k2'' = Some (''y1'' @ [CHR 0x0A] @ ''[]'')
   \<and> snd (handler_transform (fault_at 2) wrap_line show_first two_objects [''k1'', ''k2''])
       = Inl ClientError
   \<and> destination (fst (handler_transform (fault_at 2) wrap_line show_first two_objects
         [''k1'', ''k2''])) ''k1'' = Some (''a.b=x1'' @ [CHR 0x0A] @ ''a.b=x2'')
   \<and> requests (fst (handler_transform (fault_at 2) wrap_line show_first two_objects
         [''k1'', ''k2''])) = 3
   \<and> metrics (fst (handler_transform (fault_at 2) wrap_line show_first two_objects
         [''k1'', ''k2''])) = []"
  by (simp add: transform_record_def s3_get_def s3_put_def put_metric_data_def Let_def
      two_objects_def fault_at_def splitlines_def transform_line_def wrap_line_def
      show_first_def dict_def)






section \<open>Properties of the Enumerator\<close>

text \<open>
  C1 fails on the code. With two keys in the bucket, the first invocation accepts
  \<^verbatim>\<open>a\<close> into the buffer, moves the bookmark to it and then yields on the time budget
  without sending the buffer; the second invocation, started from the returned event,
  lists the keys after \<^verbatim>\<open>a\<close>, sends the page \<^verbatim>\<open>[b]\<close> and reports all pages listed. The
  key \<^verbatim>\<open>a\<close> is in no page.
\<close>

theorem yield_drops_buffered_keys:
  "handler_list_pages [''a'', ''b''] one_key_left accepts fresh
     = (\<lparr>ev = \<lparr>bookmark = Some ''a'', all_pages_listed = Some ''FALSE''\<rparr>,
         page = [''a''], sent = []\<rparr>,
        Inr \<lparr>bookmark = Some ''a'', all_pages_listed = Some ''FALSE''\<rparr>)
   \<and> handler_list_pages [''a'', ''b''] plenty accepts
         \<lparr>bookmark = Some ''a'', all_pages_listed = Some ''FALSE''\<rparr>
     = (\<lparr>ev = \<lparr>bookmark = Some ''b'', all_pages_listed = Some ''TRUE''\<rparr>,
         page = [''b''], sent = [[''b'']]\<rparr>,
        Inr \<lparr>bookmark = Some ''b'', all_pages_listed = Some ''TRUE''\<rparr>)"
  by (simp add: handler_list_pages_def objects_filter_def marker_of_def send_remaining_def
      one_key_left_def plenty_def accepts_def fresh_def Let_def)

lemma list_loop_full_pages:
  "\<forall>m \<in> set (sent s). length m = 1000 \<Longrightarrow> length (page s) < 1000 \<Longrightarrow>
   list_loop remaining q objects n s = (s', out) \<Longrightarrow>
   (\<forall>m \<in> set (sent s'). length m = 1000)
   \<and> ((out = Exhausted \<or> out = Yielded) \<longrightarrow> length (page s') < 1000)"
proof (induction objects arbitrary: n s)
  case Nil
  then show ?case by auto
next
  case (Cons key objects)
  show ?case
  proof (cases "remaining n < 30000")
    case True
    with Cons.prems show ?thesis by auto
  next
    case False
    show ?thesis
    proof (cases "length (page s @ [key]) = 1000")
      case full: True
      show ?thesis
      proof (cases "q (length (sent s)) (page s @ [key])")
        case (Some e)
        with Cons.prems False full show ?thesis by (auto simp: Let_def)
      next
        case None
        let ?s = "s\<lparr>page := [], sent := sent s @ [page s @ [key]],
                    ev := (ev s)\<lparr>bookmark := Some key\<rparr>\<rparr>"
        from Cons.prems(3) False full None
        have run: "list_loop remaining q objects (Suc n) ?s = (s', out)"
          by (simp add: Let_def)
        from Cons.prems(1) full have "\<forall>m \<in> set (sent ?s). length m = 1000" by simp
        moreover have "length (page ?s) < 1000" by simp
        ultimately show ?thesis using Cons.IH run by blast
      qed
    next
      case part: False
      let ?s = "s\<lparr>page := page s @ [key], ev := (ev s)\<lparr>bookmark := Some key\<rparr>\<rparr>"
      from Cons.prems(3) False part
      have run: "list_loop remaining q objects (Suc n) ?s = (s', out)"
        by (simp add: Let_def)
      from Cons.prems(1) have "\<forall>m \<in> set (sent ?s). length m = 1000" by simp
      moreover from Cons.prems(2) part have "length (page ?s) < 1000" by simp
      ultimately show ?thesis using Cons.IH run by blast
    qed
  qed
qed

lemma list_loop_keys:
  "list_loop remaining q objects n s = (s', out) \<Longrightarrow>
   set (concat (sent s')) \<union> set (page s') \<subseteq> set (concat (sent s)) \<union> set (page s) \<union> set objects"
proof (induction objects arbitrary: n s)
  case Nil
  then show ?case by auto
next
  case (Cons key objects)
  show ?case
  proof (cases "remaining n < 30000")
    case True
    with Cons.prems show ?thesis by auto
  next
    case False
    show ?thesis
    proof (cases "length (page s @ [key]) = 1000")
      case full: True
      show ?thesis
      proof (cases "q (length (sent s)) (page s @ [key])")
        case (Some e)
        with Cons.prems False full show ?thesis by (auto simp: Let_def)
      next
        case None
        let ?s = "s\<lparr>page := [], sent := sent s @ [page s @ [key]],
                    ev := (ev s)\<lparr>bookmark := Some key\<rparr>\<rparr>"
        from Cons.prems False full None
        have "list_loop remaining q objects (Suc n) ?s = (s', out)"
          by (simp add: Let_def)
        from Cons.IH [OF this] show ?thesis by auto
      qed
    next
      case part: False
      let ?s = "s\<lparr>page := page s @ [key], ev := (ev s)\<lparr>bookmark := Some key\<rparr>\<rparr>"
      from Cons.prems False part
      have "list_loop remaining q objects (Suc n) ?s = (s', out)"
        by (simp add: Let_def)
      from Cons.IH [OF this] show ?thesis by auto
    qed
  qed
qed

lemma marker_of_flag [simp]: "marker_of (e\<lparr>all_pages_listed := a\<rparr>) = marker_of e"
  by (simp add: marker_of_def)

lemma list_loop_nil: "list_loop remaining q [] n s = (s, Exhausted)"
  by simp

lemma send_remaining_cases:
  "send_remaining q s = (s1, r) \<Longrightarrow>
   ev s1 = ev s \<and> page s1 = page s
   \<and> (sent s1 = sent s \<or> (sent s1 = sent s @ [page s] \<and> page s \<noteq> [] \<and> r = None))"
  by (auto simp: send_remaining_def split: if_splits option.splits)

lemma handler_list_pages_unfold:
  assumes "list_loop remaining q (objects_filter bucket (marker_of event)) 0
      \<lparr>ev = event\<lparr>all_pages_listed := Some ''FALSE''\<rparr>, page = [], sent = []\<rparr> = (s, out)"
    and "send_remaining q s = (s1, r)"
  shows "handler_list_pages bucket remaining q event =
    (case out of
       Raised e \<Rightarrow> (s, Inl e)
     | Yielded \<Rightarrow> (s, Inr (ev s))
     | Exhausted \<Rightarrow>
         (case r of
            Some e \<Rightarrow> (s1, Inl e)
          | None \<Rightarrow> (s1\<lparr>ev := (ev s1)\<lparr>all_pages_listed := Some ''TRUE''\<rparr>\<rparr>,
                      Inr ((ev s1)\<lparr>all_pages_listed := Some ''TRUE''\<rparr>))))"
  using assms
  by (simp add: handler_list_pages_def Let_def split: loop_exit.split option.split)

text \<open>
  C10. Every message the Enumerator sends holds at least one and at most 1000 keys.
  Every message but the last holds exactly 1000, and an invocation that does not
  report all pages listed (it yielded on the time budget, or a send raised) has sent
  messages of exactly 1000 keys only: a shorter page is sent only after the scan has
  ended. When there is no key to list, no message is sent and all pages are reported
  listed; when the time budget is exhausted at the first key, no message is sent and
  the event is returned with \<^verbatim>\<open>all_pages_listed = 'FALSE'\<close>.
\<close>

theorem pages_sent_wellformed:
  "(\<forall>m \<in> set (sent (fst (handler_list_pages bucket remaining q event))).
      m \<noteq> [] \<and> length m \<le> 1000)
   \<and> (\<forall>m \<in> set (butlast (sent (fst (handler_list_pages bucket remaining q event)))).
        length m = 1000)
   \<and> (\<not> all_listed (snd (handler_list_pages bucket remaining q event)) \<longrightarrow>
       (\<forall>m \<in> set (sent (fst (handler_list_pages bucket remaining q event))). length m = 1000))
   \<and> (objects_filter bucket (marker_of event) = [] \<longrightarrow>
       sent (fst (handler_list_pages bucket remaining q event)) = []
       \<and> all_listed (snd (handler_list_pages bucket remaining q event)))
   \<and> (objects_filter bucket (marker_of event) \<noteq> [] \<and> remaining 0 < 30000 \<longrightarrow>
       sent (fst (handler_list_pages bucket remaining q event)) = []
       \<and> snd (handler_list_pages bucket remaining q event)
           = Inr (event\<lparr>all_pages_listed := Some ''FALSE''\<rparr>))"
proof -
  let ?e = "event\<lparr>all_pages_listed := Some ''FALSE''\<rparr>"
  let ?objs = "objects_filter bucket (marker_of event)"
  let ?init = "\<lparr>ev = ?e, page = [], sent = []\<rparr>"
  let ?H = "handler_list_pages bucket remaining q event"
  obtain s out where loop: "list_loop remaining q ?objs 0 ?init = (s, out)"
    by (cases "list_loop remaining q ?objs 0 ?init")
  obtain s1 r where rest: "send_remaining q s = (s1, r)"
    by (cases "send_remaining q s")
  note H = handler_list_pages_unfold [OF loop rest]
  have inv: "(\<forall>m \<in> set (sent s). length m = 1000)
      \<and> ((out = Exhausted \<or> out = Yielded) \<longrightarrow> length (page s) < 1000)"
    by (rule list_loop_full_pages [OF _ _ loop]) simp_all
  note fin = send_remaining_cases [OF rest]
  from inv have inv': "\<forall>m \<in> set (sent s). m \<noteq> [] \<and> length m \<le> 1000"
    by fastforce
  from inv have short: "out = Exhausted \<longrightarrow> length (page s) \<le> 1000"
    by auto
  have sizes: "\<forall>m \<in> set (sent (fst ?H)). m \<noteq> [] \<and> length m \<le> 1000"
    using inv' short fin by (cases out; cases r) (auto simp: H)
  have heads: "\<forall>m \<in> set (butlast (sent (fst ?H))). length m = 1000"
    using inv fin by (cases out; cases r) (auto simp: H dest: in_set_butlastD)
  have full: "\<forall>m \<in> set (sent (fst ?H)). length m = 1000" if "\<not> all_listed (snd ?H)"
    using inv fin that by (cases out; cases r) (auto simp: H all_listed_def)
  have none: "sent (fst ?H) = [] \<and> all_listed (snd ?H)" if "?objs = []"
  proof -
    from loop that have "s = ?init" "out = Exhausted" by simp_all
    with rest have "s1 = ?init" "r = None" by (simp_all add: send_remaining_def)
    then show ?thesis by (simp add: H \<open>out = Exhausted\<close> all_listed_def)
  qed
  have yield: "sent (fst ?H) = [] \<and> snd ?H = Inr ?e" if "?objs \<noteq> [] \<and> remaining 0 < 30000"
  proof -
    from that obtain key objs where "?objs = key # objs" by (cases ?objs) auto
    with loop that have "s = ?init" "out = Yielded" by simp_all
    then show ?thesis by (simp add: H)
  qed
  from sizes heads full none yield show ?thesis by blast
qed

theorem pages_sent_wellformed_witness:
  "sent (fst (handler_list_pages [''c'', ''a'', ''b''] plenty accepts fresh)) = [[''a'', ''b'', ''c'']]
   \<and> all_listed (snd (handler_list_pages [''c'', ''a'', ''b''] plenty accepts fresh))
   \<and> objects_filter [''c'', ''a'', ''b''] (marker_of fresh) = [''a'', ''b'', ''c'']
   \<and> length [''a'', ''b'', ''c''] \<le> (1000 :: nat)"
  using pages_sent_wellformed [of "[''c'', ''a'', ''b'']" plenty accepts fresh]
  by (simp add: handler_list_pages_def objects_filter_def marker_of_def send_remaining_def
      plenty_def accepts_def fresh_def all_listed_def Let_def)

text \<open>
  C6. An invocation resumed with bookmark \<open>b\<close> puts into its pages (those it sends and
  the buffer) only keys strictly greater than \<open>b\<close>, so neither \<open>b\<close> nor a key before
  it. (Object keys are not empty; an empty bookmark is treated as no bookmark.)
\<close>

theorem resume_after_bookmark:
  assumes "b \<noteq> [] \<or> [] \<notin> set bucket"
  shows "\<forall>k \<in> set (concat (sent (fst (handler_list_pages bucket remaining q
                (event\<lparr>bookmark := Some b\<rparr>)))))
            \<union> set (page (fst (handler_list_pages bucket remaining q
                (event\<lparr>bookmark := Some b\<rparr>)))).
          b < k"
proof -
  let ?resumed = "event\<lparr>bookmark := Some b\<rparr>"
  let ?e = "?resumed\<lparr>all_pages_listed := Some ''FALSE''\<rparr>"
  let ?objs = "objects_filter bucket (marker_of ?resumed)"
  let ?init = "\<lparr>ev = ?e, page = [], sent = []\<rparr>"
  let ?H = "handler_list_pages bucket remaining q ?resumed"
  obtain s out where loop: "list_loop remaining q ?objs 0 ?init = (s, out)"
    by (cases "list_loop remaining q ?objs 0 ?init")
  obtain s1 r where rest: "send_remaining q s = (s1, r)"
    by (cases "send_remaining q s")
  note H = handler_list_pages_unfold [OF loop rest]
  from list_loop_keys [OF loop]
  have keys: "set (concat (sent s)) \<union> set (page s) \<subseteq> set ?objs" by simp
  note fin = send_remaining_cases [OF rest]
  from fin have last: "set (concat (sent s1)) \<union> set (page s1)
      \<subseteq> set (concat (sent s)) \<union> set (page s)"
    by auto
  have "sent (fst ?H) = sent s \<and> page (fst ?H) = page s
      \<or> sent (fst ?H) = sent s1 \<and> page (fst ?H) = page s1"
    by (cases out; cases r) (simp_all add: H)
  then have sub: "set (concat (sent (fst ?H))) \<union> set (page (fst ?H)) \<subseteq> set ?objs"
  proof (elim disjE conjE)
    assume "sent (fst ?H) = sent s" "page (fst ?H) = page s"
    with keys show ?thesis by (simp only:)
  next
    assume "sent (fst ?H) = sent s1" "page (fst ?H) = page s1"
    with keys last show ?thesis by (simp only:)
  qed
  have after: "b < k" if "k \<in> set ?objs" for k
  proof (cases "b = []")
    case True
    with assms have "[] \<notin> set bucket" by simp
    moreover from that True have "k \<in> set bucket"
      by (simp add: objects_filter_def marker_of_def)
    ultimately have "k \<noteq> []" by auto
    with True show ?thesis by (cases k) simp_all
  next
    case False
    with that show ?thesis by (simp add: objects_filter_def marker_of_def)
  qed
  from sub after show ?thesis by blast
qed

theorem resume_after_bookmark_witness:
  "''b'' \<noteq> []
   \<and> sent (fst (handler_list_pages [''d'', ''b'', ''a'', ''c''] plenty accepts
        (fresh\<lparr>bookmark := Some ''b''\<rparr>))) = [[''c'', ''d'']]
   \<and> ''b'' < ''c'' \<and> ''b'' < ''d''"
  using resume_after_bookmark [of "''b''" "[''d'', ''b'', ''a'', ''c'']" plenty accepts fresh]
  by (simp add: handler_list_pages_def objects_filter_def marker_of_def send_remaining_def
      plenty_def accepts_def fresh_def Let_def)

text \<open>
  An invocation that never runs out of time, on a queue that accepts every message,
  sends the listed keys in order, each once, and reports all pages listed.
\<close>

lemma list_loop_no_yield:
  "\<forall>n. 30000 \<le> remaining n \<Longrightarrow> \<forall>n m. q n m = None \<Longrightarrow>
   list_loop remaining q objects n s = (s', out) \<Longrightarrow>
   out = Exhausted \<and> concat (sent s') @ page s' = concat (sent s) @ page s @ objects"
proof (induction objects arbitrary: n s)
  case Nil
  then show ?case by auto
next
  case (Cons key objects)
  from Cons.prems(1) have time: "\<not> remaining n < 30000"
    by (simp add: not_less)
  show ?case
  proof (cases "length (page s @ [key]) = 1000")
    case True
    let ?s = "s\<lparr>page := [], sent := sent s @ [page s @ [key]],
                ev := (ev s)\<lparr>bookmark := Some key\<rparr>\<rparr>"
    from Cons.prems(2) have "q (length (sent s)) (page s @ [key]) = None"
      by simp
    with Cons.prems(3) time True
    have "list_loop remaining q objects (Suc n) ?s = (s', out)"
      by (simp add: Let_def)
    from Cons.IH [OF Cons.prems(1,2) this] show ?thesis by simp
  next
    case False
    let ?s = "s\<lparr>page := page s @ [key], ev := (ev s)\<lparr>bookmark := Some key\<rparr>\<rparr>"
    from Cons.prems(3) time False
    have "list_loop remaining q objects (Suc n) ?s = (s', out)"
      by (simp add: Let_def)
    from Cons.IH [OF Cons.prems(1,2) this] show ?thesis by simp
  qed
qed

lemma single_invocation_covers:
  assumes time: "\<forall>n. 30000 \<le> remaining n" and queue: "\<forall>n m. q n m = None"
  shows "concat (sent (fst (handler_list_pages bucket remaining q event)))
      = objects_filter bucket (marker_of event)
    \<and> all_listed (snd (handler_list_pages bucket remaining q event))"
proof -
  let ?objs = "objects_filter bucket (marker_of event)"
  let ?init = "\<lparr>ev = event\<lparr>all_pages_listed := Some ''FALSE''\<rparr>, page = [], sent = []\<rparr>"
  obtain s out where loop: "list_loop remaining q ?objs 0 ?init = (s, out)"
    by (cases "list_loop remaining q ?objs 0 ?init")
  obtain s1 r where rest: "send_remaining q s = (s1, r)"
    by (cases "send_remaining q s")
  note H = handler_list_pages_unfold [OF loop rest]
  from list_loop_no_yield [OF time queue loop]
  have out: "out = Exhausted" and all: "concat (sent s) @ page s = ?objs"
    by simp_all
  from rest queue have r: "r = None" and s1: "concat (sent s1) = concat (sent s) @ page s"
    by (auto simp: send_remaining_def split: if_splits)
  show ?thesis
    by (simp add: H out r s1 all all_listed_def)
qed

end
